theory Spec2Isabelle
  imports Main "HOL-Library.Word" "HOL-Library.Sublist"
begin

section \<open>The landing page \<open>front-end/app/page.tsx\<close>\<close>

text \<open>
  The component \<open>Home\<close> holds six \<open>useState\<close> cells, two event handlers
  (\<open>handleSubmit\<close>, \<open>handleKeyDown\<close>), one effect (the typing animation over
  \<open>samplePrompts\<close>) and the attributes it renders on the input and the two buttons.
  Handlers and the effect are modelled as functions on a record of the cells; a timer
  is a delay in milliseconds together with the update its callback performs.
\<close>

subsection \<open>Strings and numbers of the source language\<close>

text \<open>
  A string is a sequence of UTF-16 code units: \<open>length\<close>, \<open>slice\<close> and \<open>trim\<close>
  count and cut code units. \<open>lit\<close> is the string an ASCII literal of the source denotes.
\<close>

type_synonym codeunit = "16 word"
type_synonym str = "codeunit list"

definition lit :: "string \<Rightarrow> str" where
  "lit s = map (\<lambda>c. of_nat (of_char c)) s"

text \<open>
  \<open>String.prototype.trim\<close> removes the code units of the productions WhiteSpace and
  LineTerminator from both ends.
\<close>

definition isWhiteSpace :: "codeunit \<Rightarrow> bool" where
  "isWhiteSpace c \<longleftrightarrow>
     c \<in> {0x9, 0xA, 0xB, 0xC, 0xD, 0x20, 0xA0, 0x1680, 0x2028, 0x2029, 0x202F, 0x205F,
          0x3000, 0xFEFF}
     \<or> (0x2000 \<le> c \<and> c \<le> 0x200A)"

definition trim :: "str \<Rightarrow> str" where
  "trim s = rev (dropWhile isWhiteSpace (rev (dropWhile isWhiteSpace s)))"

text \<open>
  \<open>s.slice(b, e)\<close>: a negative position counts from the end, and both positions are
  clamped to the string.
\<close>

definition clampPos :: "int \<Rightarrow> int \<Rightarrow> int" where
  "clampPos len k = (if k < 0 then max (len + k) 0 else min k len)"

definition slice :: "str \<Rightarrow> int \<Rightarrow> int \<Rightarrow> str" where
  "slice s b e =
     (let len = int (length s); from = clampPos len b; to = clampPos len e
      in take (nat (to - from)) (drop (nat from) s))"

text \<open>
  The sample index is a number of the source language. It starts at \<open>0\<close> and is only
  ever replaced by \<open>(prev + 1) % samplePrompts.length\<close>, which is a natural number, or
  \<open>NaN\<close> when the list is empty.
\<close>

datatype number = Num nat | NaN

fun succMod :: "number \<Rightarrow> nat \<Rightarrow> number" where
  "succMod (Num prev) len = (if len = 0 then NaN else Num ((prev + 1) mod len))"
| "succMod NaN len = NaN"

text \<open>\<open>xs[i]\<close>: \<open>None\<close> stands for \<open>undefined\<close>.\<close>

fun at :: "'a list \<Rightarrow> number \<Rightarrow> 'a option" where
  "at xs (Num i) = (if i < length xs then Some (xs ! i) else None)"
| "at xs NaN = None"

subsection \<open>The state of the component\<close>

text \<open>
  The six \<open>useState\<close> cells, and the timers \<open>handleSubmit\<close> has started that have not
  fired yet (\<open>loadingTimeouts\<close>: the milliseconds each one still has to run; the callback
  of every one of them is \<open>setIsLoading(false)\<close>, and none is ever cleared).
\<close>

record page =
  query :: str
  isLoading :: bool
  webSearchEnabled :: bool
  currentSampleIndex :: number
  displayedText :: str
  isTyping :: bool
  loadingTimeouts :: "nat list"

definition initial :: page where
  "initial = \<lparr> query = [], isLoading = False, webSearchEnabled = False,
               currentSampleIndex = Num 0, displayedText = [], isTyping = True,
               loadingTimeouts = [] \<rparr>"

definition samplePrompts :: "str list" where
  "samplePrompts =
     [lit ''How do I create a dashboard for monitoring CPU usage?'',
      lit ''What's the best way to set up alerting rules?'',
      lit ''Help me troubleshoot high memory usage alerts'']"

subsection \<open>The typing animation\<close>

text \<open>
  One run of the effect either starts a timer (\<open>Timeout delay callback\<close>) or updates
  the state at once (\<open>Immediate\<close>, the last branch, which starts no timer). Reading
  \<open>currentPrompt.length\<close> when \<open>currentPrompt\<close> is \<open>undefined\<close> throws. The callbacks
  close over \<open>displayedText\<close> and \<open>currentPrompt\<close> of the render that started them.
  \<open>samplePrompts\<close> is a new array in every render, so the effect runs after every
  render, and its cleanup clears the timer of the run before: the one animation timer
  that can be pending is the one the effect starts in the current state.
\<close>

datatype error = TypeError

datatype scheduled = Timeout nat "page \<Rightarrow> page" | Immediate "page \<Rightarrow> page"

definition useEffect :: "str list \<Rightarrow> page \<Rightarrow> error + scheduled" where
  "useEffect prompts s =
     (let currentPrompt = at prompts (currentSampleIndex s) in
      if isTyping s then
        (case currentPrompt of
           None \<Rightarrow> Inl TypeError
         | Some cp \<Rightarrow>
             if length (displayedText s) < length cp then
               Inr (Timeout 50
                 (\<lambda>p. p\<lparr>displayedText := slice cp 0 (int (length (displayedText s)) + 1)\<rparr>))
             else
               Inr (Timeout 2000 (\<lambda>p. p\<lparr>isTyping := False\<rparr>)))
      else
        if length (displayedText s) > 0 then
          Inr (Timeout 30 (\<lambda>p. p\<lparr>displayedText := slice (displayedText s) 0 (- 1)\<rparr>))
        else
          Inr (Immediate
            (\<lambda>p. p\<lparr>currentSampleIndex := succMod (currentSampleIndex p) (length prompts),
                    isTyping := True\<rparr>)))"

text \<open>
  \<open>fire\<close>: one run of the effect and the state update it leads to (when its timer
  fires, or at once). Every update re-renders the component, which runs the effect again.
\<close>

definition fire :: "str list \<Rightarrow> page \<Rightarrow> error + page" where
  "fire prompts s =
     (case useEffect prompts s of
        Inl e \<Rightarrow> Inl e
      | Inr (Timeout d f) \<Rightarrow> Inr (f s)
      | Inr (Immediate f) \<Rightarrow> Inr (f s))"

text \<open>The delay of the timer the effect starts in a state, if it starts one.\<close>

definition delay :: "str list \<Rightarrow> page \<Rightarrow> nat option" where
  "delay prompts s =
     (case useEffect prompts s of
        Inr (Timeout d f) \<Rightarrow> Some d
      | _ \<Rightarrow> None)"

text \<open>
  \<open>settle\<close>: the effect runs again after every update until it has started a timer;
  the state is then at rest until that timer fires.
\<close>

function settle :: "str list \<Rightarrow> page \<Rightarrow> error + page" where
  "settle prompts s =
     (case useEffect prompts s of
        Inl e \<Rightarrow> Inl e
      | Inr (Timeout d f) \<Rightarrow> Inr s
      | Inr (Immediate f) \<Rightarrow> settle prompts (f s))"
  by pat_completeness auto
termination
proof (relation "measure (\<lambda>(prompts, s). if isTyping s then 0 else 1)")
  show "wf (measure (\<lambda>(prompts, s). if isTyping s then 0 else (1::nat)))"
    by simp
next
  fix prompts :: "str list" and s :: page and sch f
  assume "useEffect prompts s = Inr sch" and "sch = Immediate f"
  then have "\<not> isTyping s \<and> isTyping (f s)"
    by (auto simp: useEffect_def Let_def split: if_splits option.splits)
  then show "((prompts, f s), (prompts, s))
      \<in> measure (\<lambda>(prompts, s). if isTyping s then 0 else 1)"
    by simp
qed

text \<open>
  \<open>advance\<close>: one scheduled step of the animator, from one state at rest to the next:
  the pending timer fires, and the effect runs until the next timer is started.
\<close>

definition advance :: "str list \<Rightarrow> page \<Rightarrow> error + page" where
  "advance prompts s =
     (case fire prompts s of
        Inl e \<Rightarrow> Inl e
      | Inr s' \<Rightarrow> settle prompts s')"

fun steps :: "str list \<Rightarrow> nat \<Rightarrow> page \<Rightarrow> error + page" where
  "steps prompts 0 s = Inr s"
| "steps prompts (Suc n) s =
     (case advance prompts s of
        Inl e \<Rightarrow> Inl e
      | Inr s' \<Rightarrow> steps prompts n s')"

text \<open>
  The three phases of the specification, read off the state: the effect of a typing
  state either reveals a code unit or starts the hold timer.
\<close>

datatype phase = Growing | Holding | Shrinking

definition phase :: "str list \<Rightarrow> page \<Rightarrow> phase option" where
  "phase prompts s =
     (if isTyping s then
        (case at prompts (currentSampleIndex s) of
           None \<Rightarrow> None
         | Some cp \<Rightarrow> Some (if length (displayedText s) < length cp then Growing else Holding))
      else Some Shrinking)"

subsection \<open>Submission\<close>

text \<open>
  A handler returns whether it called \<open>preventDefault\<close> on its event, and the state
  after it. \<open>handleSubmit\<close> tests \<open>query.trim()\<close> only; the empty string is the one
  string that is not truthy.
\<close>

definition handleSubmit :: "page \<Rightarrow> bool \<times> page" where
  "handleSubmit p =
     (True,
      if trim (query p) \<noteq> [] then
        p\<lparr>isLoading := True, loadingTimeouts := loadingTimeouts p @ [3000]\<rparr>
      else p)"

record keyboardEvent =
  key :: str
  shiftKey :: bool
  ctrlKey :: bool
  altKey :: bool
  metaKey :: bool

definition handleKeyDown :: "keyboardEvent \<Rightarrow> page \<Rightarrow> bool \<times> page" where
  "handleKeyDown e p =
     (if key e = lit ''Enter'' \<and> \<not> shiftKey e then handleSubmit p else (False, p))"

text \<open>The \<open>onClick\<close> of the web-search button.\<close>

definition toggleWebSearch :: "page \<Rightarrow> page" where
  "toggleWebSearch p = p\<lparr>webSearchEnabled := \<not> webSearchEnabled p\<rparr>"

text \<open>The \<open>onChange\<close> of the input.\<close>

definition onChange :: "str \<Rightarrow> page \<Rightarrow> page" where
  "onChange v p = p\<lparr>query := v\<rparr>"

text \<open>The \<open>disabled\<close> attributes the component renders.\<close>

definition inputDisabled :: "page \<Rightarrow> bool" where
  "inputDisabled p = isLoading p"

definition submitDisabled :: "page \<Rightarrow> bool" where
  "submitDisabled p \<longleftrightarrow> trim (query p) = [] \<or> isLoading p"

text \<open>
  \<open>elapse n\<close>: \<open>n\<close> milliseconds pass. Every loading timer that is due fires, which sets
  \<open>isLoading\<close> to \<open>false\<close>; the others have \<open>n\<close> milliseconds less to run.
\<close>

definition elapse :: "nat \<Rightarrow> page \<Rightarrow> page" where
  "elapse n p =
     p\<lparr>isLoading := (if \<exists>t \<in> set (loadingTimeouts p). t \<le> n then False else isLoading p),
       loadingTimeouts := map (\<lambda>t. t - n) (filter (\<lambda>t. n < t) (loadingTimeouts p))\<rparr>"

subsection \<open>The page as the user and the timers drive it\<close>

text \<open>
  What can happen to the mounted page: the user edits the input, presses a key in it,
  clicks one of the two buttons; the animation's pending timer fires; time passes. A
  disabled control delivers no event, and a click on the submit button submits the form.
  The input is a text field of the form whose \<open>onSubmit\<close> is \<open>handleSubmit\<close>: when
  \<open>onKeyDown\<close> has not prevented the default action of Enter, the browser submits the
  form as a click on its submit button would, unless that button is disabled.
  When the animation's timer fires relative to the others is left open: every
  interleaving is a run.
\<close>

datatype event =
    Change str
  | KeyDown keyboardEvent
  | ClickWebSearch
  | ClickSubmit
  | AnimationTimeout
  | Elapse nat

fun deliver :: "str list \<Rightarrow> event \<Rightarrow> page \<Rightarrow> error + page" where
  "deliver prompts (Change v) p = Inr (if inputDisabled p then p else onChange v p)"
| "deliver prompts (KeyDown e) p =
     Inr (if inputDisabled p then p
          else case handleKeyDown e p of
            (defaultPrevented, p') \<Rightarrow>
              if key e = lit ''Enter'' \<and> \<not> defaultPrevented \<and> \<not> submitDisabled p'
              then snd (handleSubmit p')
              else p')"
| "deliver prompts ClickWebSearch p = Inr (toggleWebSearch p)"
| "deliver prompts ClickSubmit p =
     Inr (if submitDisabled p then p else snd (handleSubmit p))"
| "deliver prompts AnimationTimeout p = advance prompts p"
| "deliver prompts (Elapse n) p = Inr (elapse n p)"

fun run :: "str list \<Rightarrow> event list \<Rightarrow> page \<Rightarrow> error + page" where
  "run prompts [] p = Inr p"
| "run prompts (e # es) p =
     (case deliver prompts e p of
        Inl x \<Rightarrow> Inl x
      | Inr p' \<Rightarrow> run prompts es p')"

fun elapsed :: "event list \<Rightarrow> nat" where
  "elapsed [] = 0"
| "elapsed (Elapse n # es) = n + elapsed es"
| "elapsed (e # es) = elapsed es"

text \<open>
  The states the page can be in: the mounted state, and every state an event or a
  single run of the effect leads to.
\<close>

inductive_set reachable :: "str list \<Rightarrow> page set" for prompts :: "str list" where
  mounted: "initial \<in> reachable prompts"
| effect: "p \<in> reachable prompts \<Longrightarrow> fire prompts p = Inr p' \<Longrightarrow> p' \<in> reachable prompts"
| event: "p \<in> reachable prompts \<Longrightarrow> deliver prompts e p = Inr p' \<Longrightarrow> p' \<in> reachable prompts"

text \<open>The events that come from the user.\<close>

fun userEvent :: "event \<Rightarrow> bool" where
  "userEvent AnimationTimeout = False"
| "userEvent (Elapse n) = False"
| "userEvent e = True"

text \<open>
  The update a run of the effect performs, and the part of the state that the animation
  does not own.
\<close>

fun update :: "scheduled \<Rightarrow> page \<Rightarrow> page" where
  "update (Timeout d f) = f"
| "update (Immediate f) = f"

definition others :: "page \<Rightarrow> str \<times> bool \<times> bool \<times> nat list" where
  "others p = (query p, isLoading p, webSearchEnabled p, loadingTimeouts p)"

text \<open>
  The sample index is inside the list and the text shown is a prefix of the prompt at
  that index.
\<close>

definition shownPrefix :: "str list \<Rightarrow> page \<Rightarrow> bool" where
  "shownPrefix prompts p \<longleftrightarrow>
     (\<exists>i. currentSampleIndex p = Num i \<and> i < length prompts
        \<and> prefix (displayedText p) (prompts ! i))"

text \<open>
  The page is loading exactly while one loading timer is pending, and that timer fires
  in at most 3000 ms.
\<close>

definition oneTimer :: "page \<Rightarrow> bool" where
  "oneTimer p \<longleftrightarrow>
     (if isLoading p then \<exists>t. loadingTimeouts p = [t] \<and> 0 < t \<and> t \<le> 3000
      else loadingTimeouts p = [])"

text \<open>
  The number of steps before the animation starts on its \<open>k\<close>-th prompt, counting from
  0 and going round the list: a prompt of \<open>n\<close> code units takes \<open>n\<close> steps to reveal,
  one to hold and \<open>n\<close> to erase.
\<close>

fun cycleStart :: "str list \<Rightarrow> nat \<Rightarrow> nat" where
  "cycleStart prompts 0 = 0"
| "cycleStart prompts (Suc k) =
     cycleStart prompts k + (2 * length (prompts ! (k mod length prompts)) + 1)"

section \<open>Properties\<close>

lemma slice_reveal: "slice cp 0 (int k + 1) = take (Suc k) cp"
proof -
  have n: "nat (int k + 1) = Suc k"
    by simp
  have "min (int k + 1) (int (length cp)) = int (min (Suc k) (length cp))"
    by simp
  moreover have "take (min (Suc k) (length cp)) cp = take (Suc k) cp"
    by (simp add: min_def)
  ultimately show ?thesis
    by (simp add: slice_def clampPos_def Let_def del: of_nat_Suc)
qed

lemma slice_erase: "slice t 0 (- 1) = butlast t"
proof (cases "t = []")
  case True
  then show ?thesis
    by (simp add: slice_def clampPos_def Let_def)
next
  case False
  then have "nat (max (int (length t) + - 1) 0) = length t - 1"
    by (cases t) simp_all
  then show ?thesis
    by (simp add: slice_def clampPos_def Let_def butlast_conv_take)
qed

subsection \<open>The effect, case by case\<close>

declare settle.simps [simp del]

lemma useEffect_typing:
  "isTyping s \<Longrightarrow> at ps (currentSampleIndex s) = Some cp \<Longrightarrow>
   useEffect ps s =
     (if length (displayedText s) < length cp
      then Inr (Timeout 50 (\<lambda>p. p\<lparr>displayedText := take (Suc (length (displayedText s))) cp\<rparr>))
      else Inr (Timeout 2000 (\<lambda>p. p\<lparr>isTyping := False\<rparr>)))"
  by (simp add: useEffect_def slice_reveal)

lemma useEffect_typing_undefined:
  "isTyping s \<Longrightarrow> at ps (currentSampleIndex s) = None \<Longrightarrow> useEffect ps s = Inl TypeError"
  by (simp add: useEffect_def)

lemma useEffect_erasing:
  "\<not> isTyping s \<Longrightarrow>
   useEffect ps s =
     (if displayedText s \<noteq> []
      then Inr (Timeout 30 (\<lambda>p. p\<lparr>displayedText := butlast (displayedText s)\<rparr>))
      else Inr (Immediate
            (\<lambda>p. p\<lparr>currentSampleIndex := succMod (currentSampleIndex p) (length ps),
                    isTyping := True\<rparr>)))"
  by (simp add: useEffect_def slice_erase)

lemma fire_eq:
  "fire ps s =
     (if isTyping s then
        (case at ps (currentSampleIndex s) of
           None \<Rightarrow> Inl TypeError
         | Some cp \<Rightarrow>
             if length (displayedText s) < length cp
             then Inr (s\<lparr>displayedText := take (Suc (length (displayedText s))) cp\<rparr>)
             else Inr (s\<lparr>isTyping := False\<rparr>))
      else if displayedText s \<noteq> [] then Inr (s\<lparr>displayedText := butlast (displayedText s)\<rparr>)
      else Inr (s\<lparr>currentSampleIndex := succMod (currentSampleIndex s) (length ps),
                  isTyping := True\<rparr>))"
  by (cases "isTyping s"; cases "at ps (currentSampleIndex s)")
     (simp_all add: fire_def useEffect_typing useEffect_typing_undefined useEffect_erasing)

lemma settle_eq:
  "settle ps s =
     (if isTyping s then
        (case at ps (currentSampleIndex s) of None \<Rightarrow> Inl TypeError | Some cp \<Rightarrow> Inr s)
      else if displayedText s \<noteq> [] then Inr s
      else (case at ps (succMod (currentSampleIndex s) (length ps)) of
              None \<Rightarrow> Inl TypeError
            | Some cp \<Rightarrow> Inr (s\<lparr>currentSampleIndex := succMod (currentSampleIndex s) (length ps),
                                isTyping := True\<rparr>)))"
proof -
  have typing: "settle ps t =
      (case at ps (currentSampleIndex t) of None \<Rightarrow> Inl TypeError | Some cp \<Rightarrow> Inr t)"
    if "isTyping t" for t
    using that
    by (subst settle.simps)
       (simp add: useEffect_typing useEffect_typing_undefined split: option.splits)
  show ?thesis
  proof (cases "isTyping s")
    case True
    then show ?thesis by (simp add: typing)
  next
    case False
    then show ?thesis
      by (subst settle.simps) (simp add: useEffect_erasing typing)
  qed
qed

subsection \<open>The animation on two short prompts\<close>

text \<open>
  Claim C2. With the prompts \<open>["Hi", "Yo"]\<close>, from index 0, empty text, typing
  (whatever the other cells hold): the state is Growing; one step shows \<open>H\<close>; two
  steps show \<open>Hi\<close>, and the state is then Holding; the hold step keeps \<open>Hi\<close> and
  makes the state Shrinking; the next step shows \<open>H\<close>; the next one shows the empty
  text with index 1, typing again, which is Growing.
\<close>

theorem hi_yo_trace:
  "let ps = [lit ''Hi'', lit ''Yo''];
       s0 = p\<lparr>currentSampleIndex := Num 0, displayedText := [], isTyping := True\<rparr>
   in phase ps s0 = Some Growing
    \<and> steps ps 1 s0 = Inr (s0\<lparr>displayedText := lit ''H''\<rparr>)
    \<and> steps ps 2 s0 = Inr (s0\<lparr>displayedText := lit ''Hi''\<rparr>)
    \<and> phase ps (s0\<lparr>displayedText := lit ''Hi''\<rparr>) = Some Holding
    \<and> steps ps 3 s0 = Inr (s0\<lparr>displayedText := lit ''Hi'', isTyping := False\<rparr>)
    \<and> phase ps (s0\<lparr>displayedText := lit ''Hi'', isTyping := False\<rparr>) = Some Shrinking
    \<and> steps ps 4 s0 = Inr (s0\<lparr>displayedText := lit ''H'', isTyping := False\<rparr>)
    \<and> steps ps 5 s0 = Inr (s0\<lparr>currentSampleIndex := Num 1\<rparr>)
    \<and> phase ps (s0\<lparr>currentSampleIndex := Num 1\<rparr>) = Some Growing"
  by (simp add: Let_def eval_nat_numeral advance_def fire_eq settle_eq lit_def phase_def)

subsection \<open>The three delays\<close>

text \<open>
  Claim C9. A Growing state starts a timer of 50 ms, a Holding state one of 2000 ms, a
  Shrinking state with text left one of 30 ms (with no text left it starts none: the
  index advances at once). So every erase delay is strictly below every reveal delay,
  and the hold duration is above the reveal delay.
\<close>

theorem erase_faster_than_reveal:
  assumes "phase ps s1 = Some Shrinking"
    and "phase ps s2 = Some Growing"
    and "phase ps s3 = Some Holding"
  shows "delay ps s2 = Some 50 \<and> delay ps s3 = Some 2000
       \<and> delay ps s1 = (if displayedText s1 = [] then None else Some 30)
       \<and> (\<forall>d1 d2 d3. delay ps s1 = Some d1 \<and> delay ps s2 = Some d2 \<and> delay ps s3 = Some d3
            \<longrightarrow> d1 < d2 \<and> d2 < d3)"
proof -
  from assms(1) have s1: "\<not> isTyping s1"
    by (auto simp: phase_def split: if_splits option.splits)
  from assms(2) obtain cp2 where s2: "isTyping s2" "at ps (currentSampleIndex s2) = Some cp2"
      "length (displayedText s2) < length cp2"
    by (auto simp: phase_def split: if_splits option.splits)
  from assms(3) obtain cp3 where s3: "isTyping s3" "at ps (currentSampleIndex s3) = Some cp3"
      "\<not> length (displayedText s3) < length cp3"
    by (auto simp: phase_def split: if_splits option.splits)
  have d1: "delay ps s1 = (if displayedText s1 = [] then None else Some 30)"
    using s1 by (simp add: delay_def useEffect_erasing)
  have d2: "delay ps s2 = Some 50"
    using s2 by (simp add: delay_def useEffect_typing)
  have d3: "delay ps s3 = Some 2000"
    using s3 by (simp add: delay_def useEffect_typing)
  show ?thesis
    unfolding d1 d2 d3 by (simp split: if_splits)
qed

theorem erase_faster_than_reveal_witness:
  "phase [lit ''Hi''] (initial\<lparr>displayedText := lit ''H'', isTyping := False\<rparr>) = Some Shrinking
 \<and> phase [lit ''Hi''] initial = Some Growing
 \<and> phase [lit ''Hi''] (initial\<lparr>displayedText := lit ''Hi''\<rparr>) = Some Holding
 \<and> delay [lit ''Hi''] initial = Some 50
 \<and> delay [lit ''Hi''] (initial\<lparr>displayedText := lit ''Hi''\<rparr>) = Some 2000
 \<and> delay [lit ''Hi''] (initial\<lparr>displayedText := lit ''H'', isTyping := False\<rparr>) = Some 30"
proof -
  have h1: "phase [lit ''Hi''] (initial\<lparr>displayedText := lit ''H'', isTyping := False\<rparr>)
      = Some Shrinking"
    by (simp add: phase_def)
  have h2: "phase [lit ''Hi''] initial = Some Growing"
    by (simp add: phase_def initial_def lit_def)
  have h3: "phase [lit ''Hi''] (initial\<lparr>displayedText := lit ''Hi''\<rparr>) = Some Holding"
    by (simp add: phase_def initial_def lit_def)
  have t: "displayedText (initial\<lparr>displayedText := lit ''H'', isTyping := False\<rparr>) \<noteq> []"
    by (simp add: lit_def)
  from erase_faster_than_reveal [OF h1 h2 h3] t h1 h2 h3 show ?thesis
    by simp
qed

subsection \<open>The cells the animation does not own\<close>

lemma others_fire: "fire ps p = Inr p' \<Longrightarrow> others p' = others p"
  by (auto simp: fire_eq others_def split: if_splits option.splits)

lemma others_settle: "settle ps p = Inr p' \<Longrightarrow> others p' = others p"
  by (auto simp: settle_eq others_def split: if_splits option.splits)

lemma others_advance: "advance ps p = Inr p' \<Longrightarrow> others p' = others p"
  by (auto simp: advance_def split: sum.splits dest!: others_fire others_settle)

lemma others_update: "useEffect ps p = Inr sch \<Longrightarrow> others (update sch q) = others q"
  by (cases "isTyping p")
     (auto simp: useEffect_def Let_def others_def split: if_splits option.splits)

text \<open>
  Claim C7. The update of every run of the effect, applied to whatever state the page
  is in when it happens, and so every step of the animator, leaves \<open>query\<close>,
  \<open>isLoading\<close> and \<open>webSearchEnabled\<close> (and the pending loading timers) as they were.
\<close>

theorem animator_frame:
  "(useEffect ps p = Inr sch \<longrightarrow> others (update sch q) = others q)
 \<and> (fire ps p = Inr p' \<longrightarrow> others p' = others p)
 \<and> (advance ps p = Inr p'' \<longrightarrow> others p'' = others p)"
  using others_update others_fire others_advance by blast

theorem animator_frame_witness:
  "useEffect [lit ''Hi''] (initial\<lparr>query := lit ''q''\<rparr>) = Inr (Timeout 50 (\<lambda>p. p\<lparr>displayedText := lit ''H''\<rparr>))
 \<and> fire [lit ''Hi''] (initial\<lparr>query := lit ''q''\<rparr>) = Inr (initial\<lparr>query := lit ''q'', displayedText := lit ''H''\<rparr>)
 \<and> others (initial\<lparr>query := lit ''q'', displayedText := lit ''H''\<rparr>) = others (initial\<lparr>query := lit ''q''\<rparr>)"
  using animator_frame [of "[lit ''Hi'']" "initial\<lparr>query := lit ''q''\<rparr>" "Timeout 50 (\<lambda>p. p\<lparr>displayedText := lit ''H''\<rparr>)" initial
     "initial\<lparr>query := lit ''q'', displayedText := lit ''H''\<rparr>" "initial\<lparr>query := lit ''q'', displayedText := lit ''H''\<rparr>"]
  by (simp add: fire_eq useEffect_typing initial_def lit_def)

subsection \<open>The web-search toggle\<close>

text \<open>
  Claim C8. The toggle negates \<open>webSearchEnabled\<close> and changes no other cell, and
  nothing else reads the flag: the two handlers, the change of the input, the passing of
  time, the disabled attributes, the delays and steps of the animator give the same
  result whatever the flag is, and carry it through unchanged.
\<close>

theorem web_search_display_only:
  "toggleWebSearch p = p\<lparr>webSearchEnabled := \<not> webSearchEnabled p\<rparr>
 \<and> query (toggleWebSearch p) = query p
 \<and> isLoading (toggleWebSearch p) = isLoading p
 \<and> currentSampleIndex (toggleWebSearch p) = currentSampleIndex p
 \<and> displayedText (toggleWebSearch p) = displayedText p
 \<and> isTyping (toggleWebSearch p) = isTyping p
 \<and> loadingTimeouts (toggleWebSearch p) = loadingTimeouts p
 \<and> handleSubmit (p\<lparr>webSearchEnabled := b\<rparr>)
      = map_prod id (\<lambda>q. q\<lparr>webSearchEnabled := b\<rparr>) (handleSubmit p)
 \<and> handleKeyDown e (p\<lparr>webSearchEnabled := b\<rparr>)
      = map_prod id (\<lambda>q. q\<lparr>webSearchEnabled := b\<rparr>) (handleKeyDown e p)
 \<and> onChange v (p\<lparr>webSearchEnabled := b\<rparr>) = (onChange v p)\<lparr>webSearchEnabled := b\<rparr>
 \<and> elapse n (p\<lparr>webSearchEnabled := b\<rparr>) = (elapse n p)\<lparr>webSearchEnabled := b\<rparr>
 \<and> inputDisabled (p\<lparr>webSearchEnabled := b\<rparr>) = inputDisabled p
 \<and> submitDisabled (p\<lparr>webSearchEnabled := b\<rparr>) = submitDisabled p
 \<and> delay ps (p\<lparr>webSearchEnabled := b\<rparr>) = delay ps p
 \<and> phase ps (p\<lparr>webSearchEnabled := b\<rparr>) = phase ps p
 \<and> fire ps (p\<lparr>webSearchEnabled := b\<rparr>)
      = map_sum id (\<lambda>q. q\<lparr>webSearchEnabled := b\<rparr>) (fire ps p)
 \<and> advance ps (p\<lparr>webSearchEnabled := b\<rparr>)
      = map_sum id (\<lambda>q. q\<lparr>webSearchEnabled := b\<rparr>) (advance ps p)"
proof -
  have f: "fire ps (p\<lparr>webSearchEnabled := b\<rparr>)
      = map_sum id (\<lambda>q. q\<lparr>webSearchEnabled := b\<rparr>) (fire ps p)" for p
    by (simp add: fire_eq split: option.splits)
  have s: "settle ps (p\<lparr>webSearchEnabled := b\<rparr>)
      = map_sum id (\<lambda>q. q\<lparr>webSearchEnabled := b\<rparr>) (settle ps p)" for p
    by (simp add: settle_eq split: option.splits)
  have a: "advance ps (p\<lparr>webSearchEnabled := b\<rparr>)
      = map_sum id (\<lambda>q. q\<lparr>webSearchEnabled := b\<rparr>) (advance ps p)"
    by (cases "fire ps p") (simp_all add: advance_def f s)
  have d: "delay ps (p\<lparr>webSearchEnabled := b\<rparr>) = delay ps p"
    by (cases "isTyping p"; cases "at ps (currentSampleIndex p)")
       (simp_all add: delay_def useEffect_typing useEffect_typing_undefined useEffect_erasing)
  have h: "handleSubmit (p\<lparr>webSearchEnabled := b\<rparr>)
      = map_prod id (\<lambda>q. q\<lparr>webSearchEnabled := b\<rparr>) (handleSubmit p)" for p
    by (simp add: handleSubmit_def)
  have k: "handleKeyDown e (p\<lparr>webSearchEnabled := b\<rparr>)
      = map_prod id (\<lambda>q. q\<lparr>webSearchEnabled := b\<rparr>) (handleKeyDown e p)"
    by (simp add: handleKeyDown_def h)
  show ?thesis
    unfolding f a d h k
    by (simp add: toggleWebSearch_def onChange_def elapse_def inputDisabled_def
        submitDisabled_def phase_def split: option.splits)
qed

subsection \<open>When a submission is accepted\<close>

lemma handleSubmit_changes:
  "snd (handleSubmit p) \<noteq> p \<longleftrightarrow> trim (query p) \<noteq> []"
proof -
  have "p\<lparr>isLoading := True, loadingTimeouts := loadingTimeouts p @ [3000]\<rparr> \<noteq> p"
  proof
    assume "p\<lparr>isLoading := True, loadingTimeouts := loadingTimeouts p @ [3000]\<rparr> = p"
    then have "loadingTimeouts (p\<lparr>isLoading := True, loadingTimeouts := loadingTimeouts p @ [3000]\<rparr>)
        = loadingTimeouts p"
      by simp
    then show False by simp
  qed
  then show ?thesis
    by (simp add: handleSubmit_def)
qed

lemma submit_needs_guard:
  assumes "userEvent ev" and "deliver ps ev p = Inr p'"
    and "isLoading p \<or> trim (query p) = []"
  shows "isLoading p' = isLoading p \<and> loadingTimeouts p' = loadingTimeouts p"
proof (cases ev)
  case (Change v)
  with assms show ?thesis
    by (auto simp: onChange_def split: if_splits)
next
  case (KeyDown k)
  with assms show ?thesis
    by (auto simp: handleKeyDown_def handleSubmit_def inputDisabled_def submitDisabled_def
        split: if_splits)
next
  case ClickWebSearch
  with assms show ?thesis
    by (auto simp: toggleWebSearch_def)
next
  case ClickSubmit
  with assms show ?thesis
    by (auto simp: submitDisabled_def split: if_splits)
next
  case AnimationTimeout
  with assms show ?thesis
    by simp
next
  case (Elapse n)
  with assms show ?thesis
    by simp
qed

text \<open>
  Claim C3. \<open>handleSubmit\<close> is only ever called behind the two disabled attributes:
  from the form's \<open>onSubmit\<close>, which the submit button triggers, and from the key handler
  of the input. So a submission, by a click on the submit button or by Enter without
  shift in the input, is accepted only when the trimmed query is non-empty and
  \<open>isLoading\<close> is false: it then sets \<open>isLoading\<close> and starts the timer. In every other
  case it leaves the whole state as it was, and no event of the user makes the page
  load or starts a timer then. With an empty trimmed query \<open>handleSubmit\<close> itself
  changes nothing.
\<close>

theorem submit_guard:
  "(deliver ps ClickSubmit p
      = Inr (if trim (query p) \<noteq> [] \<and> \<not> isLoading p then snd (handleSubmit p) else p))
 \<and> (key e = lit ''Enter'' \<and> \<not> shiftKey e \<longrightarrow>
      deliver ps (KeyDown e) p
      = Inr (if trim (query p) \<noteq> [] \<and> \<not> isLoading p then snd (handleSubmit p) else p))
 \<and> (trim (query p) \<noteq> [] \<and> \<not> isLoading p \<longrightarrow>
      handleSubmit p
        = (True, p\<lparr>isLoading := True, loadingTimeouts := loadingTimeouts p @ [3000]\<rparr>)
      \<and> snd (handleSubmit p) \<noteq> p)
 \<and> (trim (query p) = [] \<longrightarrow> handleSubmit p = (True, p))
 \<and> (userEvent ev \<and> deliver ps ev p = Inr p' \<and> (isLoading p \<or> trim (query p) = []) \<longrightarrow>
      isLoading p' = isLoading p \<and> loadingTimeouts p' = loadingTimeouts p)"
proof -
  have click: "deliver ps ClickSubmit p
      = Inr (if trim (query p) \<noteq> [] \<and> \<not> isLoading p then snd (handleSubmit p) else p)"
    by (simp add: submitDisabled_def)
  have enter: "key e = lit ''Enter'' \<and> \<not> shiftKey e \<longrightarrow>
      deliver ps (KeyDown e) p
      = Inr (if trim (query p) \<noteq> [] \<and> \<not> isLoading p then snd (handleSubmit p) else p)"
    by (simp add: handleKeyDown_def handleSubmit_def inputDisabled_def)
  have accepted: "trim (query p) \<noteq> [] \<and> \<not> isLoading p \<longrightarrow>
      handleSubmit p
        = (True, p\<lparr>isLoading := True, loadingTimeouts := loadingTimeouts p @ [3000]\<rparr>)
      \<and> snd (handleSubmit p) \<noteq> p"
    using handleSubmit_changes [of p] by (auto simp: handleSubmit_def)
  have empty: "trim (query p) = [] \<longrightarrow> handleSubmit p = (True, p)"
    by (simp add: handleSubmit_def)
  from click enter accepted empty submit_needs_guard [of ev ps p p'] show ?thesis
    by blast
qed

theorem submit_guard_witness:
  "trim (query (initial\<lparr>query := lit '' hi ''\<rparr>)) \<noteq> []
 \<and> \<not> isLoading (initial\<lparr>query := lit '' hi ''\<rparr>)
 \<and> handleSubmit (initial\<lparr>query := lit '' hi ''\<rparr>)
     = (True, initial\<lparr>query := lit '' hi '', isLoading := True, loadingTimeouts := [3000]\<rparr>)
 \<and> deliver [] ClickSubmit (initial\<lparr>query := lit '' hi ''\<rparr>)
     = Inr (initial\<lparr>query := lit '' hi '', isLoading := True, loadingTimeouts := [3000]\<rparr>)
 \<and> deliver []
       (KeyDown \<lparr>key = lit ''Enter'', shiftKey = False, ctrlKey = False, altKey = False,
          metaKey = False\<rparr>)
       (initial\<lparr>query := lit '' hi ''\<rparr>)
     = Inr (initial\<lparr>query := lit '' hi '', isLoading := True, loadingTimeouts := [3000]\<rparr>)
 \<and> isLoading (initial\<lparr>query := lit '' hi '', isLoading := True, loadingTimeouts := [3000]\<rparr>)
 \<and> deliver [] ClickSubmit
       (initial\<lparr>query := lit '' hi '', isLoading := True, loadingTimeouts := [3000]\<rparr>)
     = Inr (initial\<lparr>query := lit '' hi '', isLoading := True, loadingTimeouts := [3000]\<rparr>)
 \<and> deliver []
       (KeyDown \<lparr>key = lit ''Enter'', shiftKey = False, ctrlKey = False, altKey = False,
          metaKey = False\<rparr>)
       (initial\<lparr>query := lit '' hi '', isLoading := True, loadingTimeouts := [3000]\<rparr>)
     = Inr (initial\<lparr>query := lit '' hi '', isLoading := True, loadingTimeouts := [3000]\<rparr>)
 \<and> trim (query (initial\<lparr>query := lit ''  ''\<rparr>)) = []
 \<and> deliver [] ClickSubmit (initial\<lparr>query := lit ''  ''\<rparr>)
     = Inr (initial\<lparr>query := lit ''  ''\<rparr>)
 \<and> handleSubmit (initial\<lparr>query := lit ''  ''\<rparr>) = (True, initial\<lparr>query := lit ''  ''\<rparr>)
 \<and> userEvent (Change (lit ''x''))
 \<and> deliver [] (Change (lit ''x'')) (initial\<lparr>query := lit ''  ''\<rparr>)
     = Inr (initial\<lparr>query := lit ''x''\<rparr>)
 \<and> isLoading (initial\<lparr>query := lit ''x''\<rparr>) = isLoading (initial\<lparr>query := lit ''  ''\<rparr>)
 \<and> loadingTimeouts (initial\<lparr>query := lit ''x''\<rparr>)
     = loadingTimeouts (initial\<lparr>query := lit ''  ''\<rparr>)"
proof -
  let ?enter = "\<lparr>key = lit ''Enter'', shiftKey = False, ctrlKey = False, altKey = False,
    metaKey = False\<rparr>"
  let ?hi = "initial\<lparr>query := lit '' hi ''\<rparr>"
  let ?loading = "initial\<lparr>query := lit '' hi '', isLoading := True, loadingTimeouts := [3000]\<rparr>"
  let ?blank = "initial\<lparr>query := lit ''  ''\<rparr>"
  let ?x = "initial\<lparr>query := lit ''x''\<rparr>"
  have k: "key ?enter = lit ''Enter'' \<and> \<not> shiftKey ?enter"
    by simp
  have t1: "trim (query ?hi) \<noteq> []"
    by (simp add: trim_def lit_def isWhiteSpace_def)
  have t3: "trim (query ?blank) = []"
    by (simp add: trim_def lit_def isWhiteSpace_def)
  have l1: "\<not> isLoading ?hi"
    by (simp add: initial_def)
  have l2: "isLoading ?loading"
    by simp
  have u: "?hi\<lparr>isLoading := True, loadingTimeouts := loadingTimeouts ?hi @ [3000]\<rparr> = ?loading"
    by (simp add: initial_def)
  have ev: "userEvent (Change (lit ''x''))"
    by simp
  have ch: "deliver [] (Change (lit ''x'')) ?blank = Inr ?x"
    by (simp add: inputDisabled_def onChange_def initial_def)
  note a = submit_guard [where p = ?hi and ps = "[]" and e = ?enter and ev = ClickSubmit
      and p' = ?hi]
  note b = submit_guard [where p = ?loading and ps = "[]" and e = ?enter and ev = ClickSubmit
      and p' = ?loading]
  note c = submit_guard [where p = ?blank and ps = "[]" and e = ?enter
      and ev = "Change (lit ''x'')" and p' = ?x]
  from a t1 l1 have a1: "handleSubmit ?hi = (True, ?loading)"
    unfolding u [symmetric] by blast
  from a t1 l1 have "deliver [] ClickSubmit ?hi = Inr (snd (handleSubmit ?hi))"
    by simp
  with a1 have a2: "deliver [] ClickSubmit ?hi = Inr ?loading"
    by simp
  from a k t1 l1 have "deliver [] (KeyDown ?enter) ?hi = Inr (snd (handleSubmit ?hi))"
    by simp
  with a1 have a3: "deliver [] (KeyDown ?enter) ?hi = Inr ?loading"
    by simp
  from b l2 have b1: "deliver [] ClickSubmit ?loading = Inr ?loading"
    by simp
  from b k l2 have b2: "deliver [] (KeyDown ?enter) ?loading = Inr ?loading"
    by simp
  from c t3 have c1: "deliver [] ClickSubmit ?blank = Inr ?blank"
    and c2: "handleSubmit ?blank = (True, ?blank)"
    by simp_all
  from c ev ch t3 have c3: "isLoading ?x = isLoading ?blank"
    and c4: "loadingTimeouts ?x = loadingTimeouts ?blank"
    by blast+
  from t1 l1 a1 a2 a3 l2 b1 b2 t3 c1 c2 ev ch c3 c4 show ?thesis
    by blast
qed

subsection \<open>The Enter key\<close>

text \<open>
  Claim C4, as stated, fails: the handler tests the shift key only. Enter with the
  control key held submits.
\<close>

theorem ctrl_enter_submits:
  "ctrlKey \<lparr>key = lit ''Enter'', shiftKey = False, ctrlKey = True, altKey = False, metaKey = False\<rparr>
 \<and> handleKeyDown \<lparr>key = lit ''Enter'', shiftKey = False, ctrlKey = True, altKey = False, metaKey = False\<rparr>
      (initial\<lparr>query := lit ''hello''\<rparr>)
     = (True, initial\<lparr>query := lit ''hello'', isLoading := True, loadingTimeouts := [3000]\<rparr>)"
  by (simp add: handleKeyDown_def handleSubmit_def trim_def lit_def isWhiteSpace_def initial_def)

text \<open>
  Claim C4, amended. \<open>handleKeyDown\<close> calls \<open>handleSubmit\<close> exactly when the key is
  Enter and shift is not held, whether or not control, alt or meta is held, and Enter
  without shift in the input then acts on the page exactly as a click on the submit
  button does. With shift held, or for another key, the handler itself changes nothing
  and does not prevent the default action of the key; a key other than Enter does not
  submit. What the default action of Enter with shift then does is not part of this
  statement.
\<close>

theorem enter_without_shift_submits:
  "(key e = lit ''Enter'' \<and> \<not> shiftKey e \<longrightarrow>
      handleKeyDown e p = handleSubmit p
      \<and> deliver ps (KeyDown e) p = deliver ps ClickSubmit p)
 \<and> (key e \<noteq> lit ''Enter'' \<or> shiftKey e \<longrightarrow> handleKeyDown e p = (False, p))
 \<and> (key e \<noteq> lit ''Enter'' \<longrightarrow> deliver ps (KeyDown e) p = Inr p)"
  by (auto simp: handleKeyDown_def handleSubmit_def submitDisabled_def inputDisabled_def)

theorem enter_without_shift_submits_witness:
  "handleKeyDown \<lparr>key = lit ''Enter'', shiftKey = False, ctrlKey = True, altKey = False, metaKey = False\<rparr>
      (initial\<lparr>query := lit ''hello''\<rparr>) = handleSubmit (initial\<lparr>query := lit ''hello''\<rparr>)
 \<and> deliver [] (KeyDown \<lparr>key = lit ''Enter'', shiftKey = False, ctrlKey = True, altKey = False, metaKey = False\<rparr>)
       (initial\<lparr>query := lit ''hello''\<rparr>)
     = Inr (initial\<lparr>query := lit ''hello'', isLoading := True, loadingTimeouts := [3000]\<rparr>)
 \<and> handleKeyDown \<lparr>key = lit ''Enter'', shiftKey = True, ctrlKey = False, altKey = False, metaKey = False\<rparr>
      (initial\<lparr>query := lit ''hello''\<rparr>) = (False, initial\<lparr>query := lit ''hello''\<rparr>)
 \<and> handleKeyDown \<lparr>key = lit ''a'', shiftKey = False, ctrlKey = False, altKey = False, metaKey = False\<rparr>
      (initial\<lparr>query := lit ''hello''\<rparr>) = (False, initial\<lparr>query := lit ''hello''\<rparr>)
 \<and> deliver [] (KeyDown \<lparr>key = lit ''a'', shiftKey = False, ctrlKey = False, altKey = False, metaKey = False\<rparr>)
       (initial\<lparr>query := lit ''hello''\<rparr>)
     = Inr (initial\<lparr>query := lit ''hello''\<rparr>)"
  using enter_without_shift_submits [of "\<lparr>key = lit ''Enter'', shiftKey = False, ctrlKey = True, altKey = False, metaKey = False\<rparr>" "initial\<lparr>query := lit ''hello''\<rparr>" "[]"]
    enter_without_shift_submits [of "\<lparr>key = lit ''Enter'', shiftKey = True, ctrlKey = False, altKey = False, metaKey = False\<rparr>" "initial\<lparr>query := lit ''hello''\<rparr>" "[]"]
    enter_without_shift_submits [of "\<lparr>key = lit ''a'', shiftKey = False, ctrlKey = False, altKey = False, metaKey = False\<rparr>" "initial\<lparr>query := lit ''hello''\<rparr>" "[]"]
  by (simp add: lit_def submitDisabled_def trim_def isWhiteSpace_def handleSubmit_def initial_def)

text \<open>
  Enter with shift held: the handler does not prevent the default action, so the browser
  submits the form, and the page ends as after a click on the submit button.
\<close>

lemma shift_enter_default_action:
  assumes "key e = lit ''Enter''" and "shiftKey e"
  shows "handleKeyDown e p = (False, p)"
    and "deliver ps (KeyDown e) p = deliver ps ClickSubmit p"
  using assms by (auto simp: handleKeyDown_def inputDisabled_def submitDisabled_def)

lemma shift_enter_example:
  "deliver [] (KeyDown \<lparr>key = lit ''Enter'', shiftKey = True, ctrlKey = False, altKey = False,
       metaKey = False\<rparr>) (initial\<lparr>query := lit ''hello''\<rparr>)
     = Inr (initial\<lparr>query := lit ''hello'', isLoading := True, loadingTimeouts := [3000]\<rparr>)"
  by (simp add: handleKeyDown_def handleSubmit_def inputDisabled_def submitDisabled_def
      trim_def lit_def isWhiteSpace_def initial_def)

subsection \<open>The disabled controls\<close>

text \<open>
  Claim C10. The submit button is disabled exactly when the trimmed query is empty or
  the page is loading, the input exactly when the page is loading. While the page is
  loading, the only event of the user that changes anything is the web-search toggle:
  the query stays, and no timer is started.
\<close>

theorem disabled_while_loading:
  "(submitDisabled p \<longleftrightarrow> trim (query p) = [] \<or> isLoading p)
 \<and> (inputDisabled p \<longleftrightarrow> isLoading p)
 \<and> (isLoading p \<and> userEvent e \<longrightarrow>
      deliver ps e p = Inr (if e = ClickWebSearch then toggleWebSearch p else p))
 \<and> (isLoading p \<and> userEvent e \<and> deliver ps e p = Inr p' \<longrightarrow>
      query p' = query p \<and> isLoading p' \<and> loadingTimeouts p' = loadingTimeouts p)"
  by (cases e) (auto simp: submitDisabled_def inputDisabled_def toggleWebSearch_def)

theorem disabled_while_loading_witness:
  "isLoading (initial\<lparr>query := lit ''hello'', isLoading := True, loadingTimeouts := [3000]\<rparr>)
 \<and> userEvent (Change (lit ''bye''))
 \<and> deliver [] (Change (lit ''bye'')) (initial\<lparr>query := lit ''hello'', isLoading := True, loadingTimeouts := [3000]\<rparr>)
    = Inr (initial\<lparr>query := lit ''hello'', isLoading := True, loadingTimeouts := [3000]\<rparr>)
 \<and> userEvent ClickSubmit
 \<and> deliver [] ClickSubmit (initial\<lparr>query := lit ''hello'', isLoading := True, loadingTimeouts := [3000]\<rparr>)
    = Inr (initial\<lparr>query := lit ''hello'', isLoading := True, loadingTimeouts := [3000]\<rparr>)"
  using disabled_while_loading [where p = "initial\<lparr>query := lit ''hello'', isLoading := True, loadingTimeouts := [3000]\<rparr>" and e = "Change (lit ''bye'')" and ps = "[]"
      and p' = "initial\<lparr>query := lit ''hello'', isLoading := True, loadingTimeouts := [3000]\<rparr>"]
    disabled_while_loading [where p = "initial\<lparr>query := lit ''hello'', isLoading := True, loadingTimeouts := [3000]\<rparr>" and e = ClickSubmit and ps = "[]"
      and p' = "initial\<lparr>query := lit ''hello'', isLoading := True, loadingTimeouts := [3000]\<rparr>"]
  by simp

subsection \<open>The text shown is a prefix of the current prompt\<close>

lemma shownPrefix_initial: "prompts \<noteq> [] \<Longrightarrow> shownPrefix prompts initial"
  by (simp add: shownPrefix_def initial_def)

lemma shownPrefix_fire:
  assumes "shownPrefix prompts p"
  shows "\<exists>p'. fire prompts p = Inr p' \<and> shownPrefix prompts p'"
proof -
  from assms obtain i where i: "currentSampleIndex p = Num i" "i < length prompts"
    and pre: "prefix (displayedText p) (prompts ! i)"
    by (auto simp: shownPrefix_def)
  from i(2) have ne: "prompts \<noteq> []"
    by auto
  then have "0 < length prompts"
    by (cases prompts) simp_all
  then have pos: "(i + 1) mod length prompts < length prompts"
    by (rule mod_less_divisor)
  have "prefix (butlast (displayedText p)) (prompts ! i)"
    using pre prefixeq_butlast prefix_order.trans by blast
  with i pre pos ne show ?thesis
    by (auto simp: fire_eq shownPrefix_def take_is_prefix)
qed

lemma shownPrefix_settle:
  assumes "shownPrefix prompts p"
  shows "\<exists>p'. settle prompts p = Inr p' \<and> shownPrefix prompts p'"
proof -
  from assms obtain i where i: "currentSampleIndex p = Num i" "i < length prompts"
    and pre: "prefix (displayedText p) (prompts ! i)"
    by (auto simp: shownPrefix_def)
  from i(2) have ne: "prompts \<noteq> []"
    by auto
  then have "0 < length prompts"
    by (cases prompts) simp_all
  then have pos: "(i + 1) mod length prompts < length prompts"
    by (rule mod_less_divisor)
  with i pre ne show ?thesis
    by (simp add: settle_eq shownPrefix_def)
qed

lemma shownPrefix_advance:
  assumes "shownPrefix prompts p"
  shows "\<exists>p'. advance prompts p = Inr p' \<and> shownPrefix prompts p'"
proof -
  from shownPrefix_fire [OF assms] obtain p1 where
    p1: "fire prompts p = Inr p1" "shownPrefix prompts p1"
    by blast
  from shownPrefix_settle [OF p1(2)] obtain p2 where
    "settle prompts p1 = Inr p2" "shownPrefix prompts p2"
    by blast
  with p1 show ?thesis
    by (simp add: advance_def)
qed

lemma shownPrefix_deliver:
  assumes "shownPrefix prompts p"
  shows "\<exists>p'. deliver prompts e p = Inr p' \<and> shownPrefix prompts p'"
proof (cases e)
  case AnimationTimeout
  then show ?thesis
    using shownPrefix_advance [OF assms] by simp
next
  case (Change v)
  then show ?thesis
    using assms by (simp add: onChange_def shownPrefix_def)
next
  case (KeyDown k)
  then show ?thesis
    using assms by (simp add: handleKeyDown_def handleSubmit_def shownPrefix_def)
next
  case ClickWebSearch
  then show ?thesis
    using assms by (simp add: toggleWebSearch_def shownPrefix_def)
next
  case ClickSubmit
  then show ?thesis
    using assms by (simp add: handleSubmit_def shownPrefix_def)
next
  case (Elapse n)
  then show ?thesis
    using assms by (simp add: elapse_def shownPrefix_def)
qed

lemma reachable_shownPrefix:
  assumes "prompts \<noteq> []" and "p \<in> reachable prompts"
  shows "shownPrefix prompts p"
  using assms(2)
proof (induction rule: reachable.induct)
  case mounted
  show ?case
    using assms(1) by (rule shownPrefix_initial)
next
  case (effect p p')
  then show ?case
    using shownPrefix_fire [of prompts p] by auto
next
  case (event p e p')
  then show ?case
    using shownPrefix_deliver [of prompts p e] by auto
qed

text \<open>
  Claim C1. With a non-empty list of prompts, in every state the page reaches from its
  mounted state (index 0, empty text, typing), whatever the user does meanwhile, the
  index is inside the list and \<open>displayedText\<close> is a prefix of the prompt at the
  index, so no longer than it; the effect then runs without an error, and the state it
  leads to is reachable and has the same property.
\<close>

theorem displayedText_prefix:
  assumes "prompts \<noteq> []" and "p \<in> reachable prompts"
  shows "\<exists>i p'. currentSampleIndex p = Num i \<and> i < length prompts
           \<and> prefix (displayedText p) (prompts ! i)
           \<and> length (displayedText p) \<le> length (prompts ! i)
           \<and> fire prompts p = Inr p' \<and> p' \<in> reachable prompts
           \<and> (\<exists>j. currentSampleIndex p' = Num j \<and> j < length prompts
                \<and> prefix (displayedText p') (prompts ! j)
                \<and> length (displayedText p') \<le> length (prompts ! j))"
proof -
  have here: "shownPrefix prompts p"
    using assms by (rule reachable_shownPrefix)
  then obtain p' where p': "fire prompts p = Inr p'" "shownPrefix prompts p'"
    using shownPrefix_fire by blast
  have "p' \<in> reachable prompts"
    using assms(2) p'(1) by (rule reachable.effect)
  with here p' show ?thesis
    by (auto simp: shownPrefix_def dest: prefix_length_le)
qed

theorem displayedText_prefix_witness:
  "samplePrompts \<noteq> [] \<and> initial \<in> reachable samplePrompts
 \<and> (\<exists>i p'. currentSampleIndex initial = Num i \<and> i < length samplePrompts
           \<and> prefix (displayedText initial) (samplePrompts ! i)
           \<and> length (displayedText initial) \<le> length (samplePrompts ! i)
           \<and> fire samplePrompts initial = Inr p' \<and> p' \<in> reachable samplePrompts
           \<and> (\<exists>j. currentSampleIndex p' = Num j \<and> j < length samplePrompts
                \<and> prefix (displayedText p') (samplePrompts ! j)
                \<and> length (displayedText p') \<le> length (samplePrompts ! j)))"
proof -
  have ne: "samplePrompts \<noteq> []"
    by (simp add: samplePrompts_def)
  have r: "initial \<in> reachable samplePrompts"
    by (rule reachable.mounted)
  from ne r displayedText_prefix [OF ne r] show ?thesis
    by blast
qed

subsection \<open>The index goes round the list\<close>

lemma steps_add:
  "steps ps (a + b) s = (case steps ps a s of Inl e \<Rightarrow> Inl e | Inr s' \<Rightarrow> steps ps b s')"
  by (induction a arbitrary: s) (simp_all split: sum.splits)

lemma steps_Suc_right:
  "steps ps (Suc a) s = (case steps ps a s of Inl e \<Rightarrow> Inl e | Inr s' \<Rightarrow> advance ps s')"
  using steps_add [of ps a 1 s] by (simp split: sum.splits)

lemma advance_typing:
  assumes "i < length ps"
  shows "advance ps (p\<lparr>currentSampleIndex := Num i, displayedText := t, isTyping := True\<rparr>) =
     (if length t < length (ps ! i) then
        Inr (p\<lparr>currentSampleIndex := Num i, displayedText := take (Suc (length t)) (ps ! i),
               isTyping := True\<rparr>)
      else if t = [] then
        Inr (p\<lparr>currentSampleIndex := Num ((i + 1) mod length ps), displayedText := [],
               isTyping := True\<rparr>)
      else Inr (p\<lparr>currentSampleIndex := Num i, displayedText := t, isTyping := False\<rparr>))"
proof -
  from assms have ne: "ps \<noteq> []"
    by auto
  then have "0 < length ps"
    by (cases ps) simp_all
  then have "(i + 1) mod length ps < length ps"
    by (rule mod_less_divisor)
  with assms ne show ?thesis
    by (simp add: advance_def fire_eq settle_eq)
qed

lemma advance_erasing:
  assumes "i < length ps" and "t \<noteq> []"
  shows "advance ps (p\<lparr>currentSampleIndex := Num i, displayedText := t, isTyping := False\<rparr>) =
     (if butlast t = [] then
        Inr (p\<lparr>currentSampleIndex := Num ((i + 1) mod length ps), displayedText := [],
               isTyping := True\<rparr>)
      else Inr (p\<lparr>currentSampleIndex := Num i, displayedText := butlast t, isTyping := False\<rparr>))"
proof -
  from assms have ne: "ps \<noteq> []"
    by auto
  then have "0 < length ps"
    by (cases ps) simp_all
  then have "(i + 1) mod length ps < length ps"
    by (rule mod_less_divisor)
  with assms ne show ?thesis
    by (simp add: advance_def fire_eq settle_eq)
qed

lemma reveal_steps:
  assumes "i < length ps"
  shows "j \<le> length (ps ! i) \<Longrightarrow>
     steps ps j (p\<lparr>currentSampleIndex := Num i, displayedText := [], isTyping := True\<rparr>)
       = Inr (p\<lparr>currentSampleIndex := Num i, displayedText := take j (ps ! i), isTyping := True\<rparr>)"
proof (induction j)
  case 0
  show ?case by simp
next
  case (Suc j)
  then have "length (take j (ps ! i)) < length (ps ! i)" and "length (take j (ps ! i)) = j"
    by simp_all
  with Suc assms show ?case
    by (simp add: steps_Suc_right advance_typing del: steps.simps)
qed

lemma erase_steps:
  assumes "i < length ps"
  shows "j < length (ps ! i) \<Longrightarrow>
     steps ps j (p\<lparr>currentSampleIndex := Num i, displayedText := ps ! i, isTyping := False\<rparr>)
       = Inr (p\<lparr>currentSampleIndex := Num i, displayedText := take (length (ps ! i) - j) (ps ! i),
                isTyping := False\<rparr>)"
proof (induction j)
  case 0
  show ?case by simp
next
  case (Suc j)
  let ?t = "take (length (ps ! i) - j) (ps ! i)"
  from Suc.prems have t: "?t \<noteq> []"
    by auto
  from Suc.prems have b: "butlast ?t = take (length (ps ! i) - Suc j) (ps ! i)"
    by (simp add: butlast_take)
  from Suc.prems have "butlast ?t \<noteq> []"
    unfolding b by auto
  with Suc assms t b show ?case
    by (simp add: steps_Suc_right advance_erasing del: steps.simps)
qed

lemma hold_then_erase_steps:
  assumes "i < length ps" and "m < length (ps ! i)"
  shows "steps ps (length (ps ! i) + 1 + m)
       (p\<lparr>currentSampleIndex := Num i, displayedText := [], isTyping := True\<rparr>)
     = Inr (p\<lparr>currentSampleIndex := Num i, displayedText := take (length (ps ! i) - m) (ps ! i),
              isTyping := False\<rparr>)"
proof -
  let ?s0 = "p\<lparr>currentSampleIndex := Num i, displayedText := [], isTyping := True\<rparr>"
  let ?full = "p\<lparr>currentSampleIndex := Num i, displayedText := ps ! i, isTyping := True\<rparr>"
  let ?held = "p\<lparr>currentSampleIndex := Num i, displayedText := ps ! i, isTyping := False\<rparr>"
  from assms(2) have ne: "ps ! i \<noteq> []"
    by auto
  have revealed: "steps ps (length (ps ! i)) ?s0 = Inr ?full"
    using reveal_steps [OF assms(1), of "length (ps ! i)" p] by simp
  have held: "steps ps 1 ?full = Inr ?held"
    using ne assms(1) by (simp add: advance_typing)
  have erased: "steps ps m ?held
      = Inr (p\<lparr>currentSampleIndex := Num i,
               displayedText := take (length (ps ! i) - m) (ps ! i), isTyping := False\<rparr>)"
    using assms by (rule erase_steps)
  have "steps ps (length (ps ! i) + 1) ?s0 = Inr ?held"
    using steps_add [of ps "length (ps ! i)" 1 ?s0] revealed held by simp
  then show ?thesis
    using steps_add [of ps "length (ps ! i) + 1" m ?s0] erased by simp
qed

lemma cycle_index:
  assumes "i < length ps" and "j \<le> 2 * length (ps ! i)"
  shows "\<exists>q. steps ps j (p\<lparr>currentSampleIndex := Num i, displayedText := [], isTyping := True\<rparr>)
           = Inr q \<and> currentSampleIndex q = Num i"
proof (cases "j \<le> length (ps ! i)")
  case True
  then show ?thesis
    using reveal_steps [OF assms(1), of j p] by simp
next
  case False
  then obtain m where m: "j = length (ps ! i) + 1 + m"
    using less_iff_Suc_add [of "length (ps ! i)" j] by auto
  with assms(2) have "m < length (ps ! i)"
    by simp
  from hold_then_erase_steps [OF assms(1) this, of p] show ?thesis
    unfolding m by simp
qed

lemma cycle_end:
  assumes "i < length ps"
  shows "steps ps (2 * length (ps ! i) + 1)
       (p\<lparr>currentSampleIndex := Num i, displayedText := [], isTyping := True\<rparr>)
     = Inr (p\<lparr>currentSampleIndex := Num ((i + 1) mod length ps), displayedText := [],
              isTyping := True\<rparr>)"
proof (cases "ps ! i = []")
  case True
  with assms show ?thesis
    by (simp add: advance_typing)
next
  case False
  then obtain m where m: "length (ps ! i) = Suc m"
    by (cases "ps ! i") simp_all
  then have lt: "m < length (ps ! i)"
    by simp
  have one: "take (length (ps ! i) - m) (ps ! i) \<noteq> []"
    using False m by simp
  have last: "butlast (take (length (ps ! i) - m) (ps ! i)) = []"
    using m by (simp add: butlast_take)
  have count: "2 * length (ps ! i) + 1 = (length (ps ! i) + 1 + m) + 1"
    using m by simp
  have "advance ps (p\<lparr>currentSampleIndex := Num i,
        displayedText := take (length (ps ! i) - m) (ps ! i), isTyping := False\<rparr>)
      = Inr (p\<lparr>currentSampleIndex := Num ((i + 1) mod length ps), displayedText := [],
               isTyping := True\<rparr>)"
    using assms one last by (simp add: advance_erasing)
  then show ?thesis
    unfolding count
    using steps_add [of ps "length (ps ! i) + 1 + m" 1
        "p\<lparr>currentSampleIndex := Num i, displayedText := [], isTyping := True\<rparr>"]
      hold_then_erase_steps [OF assms lt, of p]
    by simp
qed

lemma cycleStart_steps:
  assumes "ps \<noteq> []"
  shows "steps ps (cycleStart ps k) (p\<lparr>currentSampleIndex := Num 0, displayedText := [], isTyping := True\<rparr>)
     = Inr (p\<lparr>currentSampleIndex := Num (k mod length ps), displayedText := [], isTyping := True\<rparr>)"
proof (induction k)
  case 0
  show ?case by simp
next
  case (Suc k)
  from assms have lt: "k mod length ps < length ps"
    by simp
  have "(k mod length ps + 1) mod length ps = Suc k mod length ps"
    by (simp add: mod_Suc_eq)
  with Suc cycle_end [OF lt, of p]
    steps_add [of ps "cycleStart ps k" "2 * length (ps ! (k mod length ps)) + 1"
      "p\<lparr>currentSampleIndex := Num 0, displayedText := [], isTyping := True\<rparr>"]
  show ?case
    by simp
qed

lemma within_cycle:
  assumes "ps \<noteq> []" and "cycleStart ps k \<le> n" and "n < cycleStart ps (Suc k)"
  shows "\<exists>q. steps ps n (p\<lparr>currentSampleIndex := Num 0, displayedText := [], isTyping := True\<rparr>)
           = Inr q \<and> currentSampleIndex q = Num (k mod length ps)"
proof -
  from assms(1) have lt: "k mod length ps < length ps"
    by simp
  from assms(2) obtain j where j: "n = cycleStart ps k + j"
    using le_Suc_ex by blast
  with assms(3) have "j \<le> 2 * length (ps ! (k mod length ps))"
    by simp
  from cycle_index [OF lt this, of p] show ?thesis
    unfolding j
    using steps_add [of ps "cycleStart ps k" j
        "p\<lparr>currentSampleIndex := Num 0, displayedText := [], isTyping := True\<rparr>"]
      cycleStart_steps [OF assms(1), of k p]
    by simp
qed

lemma cycleStart_covers:
  "\<exists>k. cycleStart ps k \<le> n \<and> n < cycleStart ps (Suc k)"
proof (induction n)
  case 0
  have "cycleStart ps 0 \<le> 0 \<and> 0 < cycleStart ps (Suc 0)"
    by simp
  then show ?case by blast
next
  case (Suc n)
  then obtain k where k: "cycleStart ps k \<le> n" "n < cycleStart ps (Suc k)"
    by blast
  show ?case
  proof (cases "Suc n < cycleStart ps (Suc k)")
    case True
    with k(1) have "cycleStart ps k \<le> Suc n \<and> Suc n < cycleStart ps (Suc k)"
      by simp
    then show ?thesis by blast
  next
    case False
    with k(2) have "cycleStart ps (Suc k) \<le> Suc n \<and> Suc n < cycleStart ps (Suc (Suc k))"
      by simp
    then show ?thesis by blast
  qed
qed

lemma fire_index:
  assumes "ps \<noteq> []" and "currentSampleIndex p = Num i" and "fire ps p = Inr p'"
  shows "currentSampleIndex p' = Num i \<or> currentSampleIndex p' = Num ((i + 1) mod length ps)"
  using assms by (auto simp: fire_eq split: if_splits option.splits)

lemma advance_index:
  assumes "ps \<noteq> []" and "currentSampleIndex p = Num i" and "advance ps p = Inr p'"
  shows "currentSampleIndex p' = Num i \<or> currentSampleIndex p' = Num ((i + 1) mod length ps)"
proof -
  from assms(3) obtain p1 where p1: "fire ps p = Inr p1" "settle ps p1 = Inr p'"
    by (auto simp: advance_def split: sum.splits)
  show ?thesis
  proof (cases "isTyping p \<or> displayedText p \<noteq> []")
    case True
    with p1(1) assms(2) have "currentSampleIndex p1 = Num i"
      by (auto simp: fire_eq split: if_splits option.splits)
    with p1(2) assms(1) show ?thesis
      by (auto simp: settle_eq split: if_splits option.splits)
  next
    case False
    with p1(1) assms(1,2) have "currentSampleIndex p1 = Num ((i + 1) mod length ps)" "isTyping p1"
      by (auto simp: fire_eq split: if_splits option.splits)
    with p1(2) show ?thesis
      by (auto simp: settle_eq split: if_splits option.splits)
  qed
qed

text \<open>
  Claim C6. With a non-empty list of prompts: the index of a reachable state is inside
  the list; a run of the effect, or a step, that changes the index \<open>i\<close> makes it
  \<open>(i + 1) mod length\<close>; from the mounted state, after \<open>cycleStart k\<close> steps the
  animation starts on prompt \<open>k mod length\<close> with the empty text, and the index stays
  \<open>k mod length\<close> until step \<open>cycleStart (k + 1)\<close>; every number of steps lies in
  one such round. So the index visits 0, 1, ..., length - 1, 0, ... for ever.
\<close>

theorem index_cycles:
  assumes "prompts \<noteq> []"
  shows "(p \<in> reachable prompts \<longrightarrow>
           (\<exists>i. currentSampleIndex p = Num i \<and> i < length prompts))
       \<and> (currentSampleIndex p = Num i \<and> fire prompts p = Inr p'
            \<and> currentSampleIndex p' \<noteq> currentSampleIndex p \<longrightarrow>
           currentSampleIndex p' = Num ((i + 1) mod length prompts))
       \<and> (currentSampleIndex p = Num i \<and> advance prompts p = Inr p'
            \<and> currentSampleIndex p' \<noteq> currentSampleIndex p \<longrightarrow>
           currentSampleIndex p' = Num ((i + 1) mod length prompts))
       \<and> steps prompts (cycleStart prompts k) initial
           = Inr (initial\<lparr>currentSampleIndex := Num (k mod length prompts)\<rparr>)
       \<and> (\<forall>n. cycleStart prompts k \<le> n \<and> n < cycleStart prompts (Suc k) \<longrightarrow>
            (\<exists>q. steps prompts n initial = Inr q
               \<and> currentSampleIndex q = Num (k mod length prompts)))
       \<and> (\<exists>k'. cycleStart prompts k' \<le> m \<and> m < cycleStart prompts (Suc k'))"
proof -
  have start: "initial\<lparr>currentSampleIndex := Num 0, displayedText := [], isTyping := True\<rparr> = initial"
    by (simp add: initial_def)
  have a: "p \<in> reachable prompts \<longrightarrow> (\<exists>i. currentSampleIndex p = Num i \<and> i < length prompts)"
    using reachable_shownPrefix [OF assms] by (auto simp: shownPrefix_def)
  have b: "currentSampleIndex p = Num i \<and> fire prompts p = Inr p'
            \<and> currentSampleIndex p' \<noteq> currentSampleIndex p \<longrightarrow>
           currentSampleIndex p' = Num ((i + 1) mod length prompts)"
    using fire_index [OF assms, of p i p'] by auto
  have c: "currentSampleIndex p = Num i \<and> advance prompts p = Inr p'
            \<and> currentSampleIndex p' \<noteq> currentSampleIndex p \<longrightarrow>
           currentSampleIndex p' = Num ((i + 1) mod length prompts)"
    using advance_index [OF assms, of p i p'] by auto
  have d: "steps prompts (cycleStart prompts k) initial
           = Inr (initial\<lparr>currentSampleIndex := Num (k mod length prompts)\<rparr>)"
    using cycleStart_steps [OF assms, of k initial] by (simp add: initial_def)
  have e: "\<forall>n. cycleStart prompts k \<le> n \<and> n < cycleStart prompts (Suc k) \<longrightarrow>
            (\<exists>q. steps prompts n initial = Inr q
               \<and> currentSampleIndex q = Num (k mod length prompts))"
    using within_cycle [OF assms, of k _ initial] unfolding start by blast
  from a b c d e cycleStart_covers [of prompts m] show ?thesis
    by blast
qed

theorem index_cycles_witness:
  "[lit ''Hi'', lit ''Yo''] \<noteq> []
 \<and> initial \<in> reachable [lit ''Hi'', lit ''Yo'']
 \<and> (\<exists>i. currentSampleIndex initial = Num i \<and> i < length [lit ''Hi'', lit ''Yo''])
 \<and> cycleStart [lit ''Hi'', lit ''Yo''] 3 = 15
 \<and> steps [lit ''Hi'', lit ''Yo''] 15 initial = Inr (initial\<lparr>currentSampleIndex := Num 1\<rparr>)"
proof -
  have ne: "[lit ''Hi'', lit ''Yo''] \<noteq> []"
    by simp
  have r: "initial \<in> reachable [lit ''Hi'', lit ''Yo'']"
    by (rule reachable.mounted)
  have c: "cycleStart [lit ''Hi'', lit ''Yo''] 3 = 15"
    by (simp add: eval_nat_numeral lit_def)
  have l: "length [lit ''Hi'', lit ''Yo''] = 2"
    by simp
  have m: "3 mod length [lit ''Hi'', lit ''Yo''] = 1"
    unfolding l by simp
  from index_cycles [OF ne, of initial 0 initial 3 0] r c m show ?thesis
    by simp
qed

subsection \<open>Three seconds of loading\<close>

lemma oneTimer_others: "others p' = others p \<Longrightarrow> oneTimer p' = oneTimer p"
  by (simp add: others_def oneTimer_def)

lemma oneTimer_deliver:
  assumes "oneTimer p" and "deliver ps e p = Inr p'"
  shows "oneTimer p'"
proof (cases e)
  case AnimationTimeout
  with assms show ?thesis
    using others_advance [of ps p p'] oneTimer_others [of p' p] by simp
next
  case (Change v)
  with assms show ?thesis
    by (auto simp: onChange_def oneTimer_def inputDisabled_def split: if_splits)
next
  case (KeyDown k)
  with assms show ?thesis
    by (auto simp: handleKeyDown_def handleSubmit_def oneTimer_def inputDisabled_def
        submitDisabled_def split: if_splits)
next
  case ClickWebSearch
  with assms show ?thesis
    by (auto simp: toggleWebSearch_def oneTimer_def split: if_splits)
next
  case ClickSubmit
  with assms show ?thesis
    by (auto simp: handleSubmit_def oneTimer_def submitDisabled_def split: if_splits)
next
  case (Elapse n)
  with assms show ?thesis
    by (auto simp: elapse_def oneTimer_def split: if_splits)
qed

lemma reachable_oneTimer:
  assumes "p \<in> reachable ps"
  shows "oneTimer p"
  using assms
proof (induction rule: reachable.induct)
  case mounted
  show ?case
    by (simp add: oneTimer_def initial_def)
next
  case (effect p p')
  then show ?case
    using others_fire [of ps p p'] oneTimer_others [of p' p] by simp
next
  case (event p e p')
  then show ?case
    using oneTimer_deliver [of p ps e p'] by simp
qed

lemma elapsed_Cons: "elapsed (e # es) = elapsed [e] + elapsed es"
  by (cases e) simp_all

lemma loading_deliver:
  assumes "shownPrefix ps q0" and "isLoading q0" and "loadingTimeouts q0 = [t]"
    and "elapsed [e] < t"
  shows "\<exists>q. deliver ps e q0 = Inr q \<and> shownPrefix ps q \<and> isLoading q
           \<and> query q = query q0 \<and> loadingTimeouts q = [t - elapsed [e]]"
proof (cases e)
  case AnimationTimeout
  from shownPrefix_advance [OF assms(1)] obtain q where
    q: "advance ps q0 = Inr q" "shownPrefix ps q"
    by blast
  from others_advance [OF q(1)] have "isLoading q = isLoading q0" "query q = query q0"
      "loadingTimeouts q = loadingTimeouts q0"
    by (simp_all add: others_def)
  with q assms AnimationTimeout show ?thesis
    by simp
next
  case (Change v)
  with assms show ?thesis
    by (simp add: inputDisabled_def)
next
  case (KeyDown k)
  with assms show ?thesis
    by (simp add: inputDisabled_def)
next
  case ClickWebSearch
  with assms show ?thesis
    by (simp add: toggleWebSearch_def shownPrefix_def)
next
  case ClickSubmit
  with assms show ?thesis
    by (simp add: submitDisabled_def)
next
  case (Elapse n)
  with assms show ?thesis
    by (simp add: elapse_def shownPrefix_def)
qed

lemma loading_run:
  assumes "shownPrefix ps q0" and "isLoading q0" and "loadingTimeouts q0 = [t]"
    and "elapsed es < t"
  shows "\<exists>q. run ps es q0 = Inr q \<and> shownPrefix ps q \<and> isLoading q
           \<and> query q = query q0 \<and> loadingTimeouts q = [t - elapsed es]"
  using assms
proof (induction es arbitrary: q0 t)
  case Nil
  then show ?case by simp
next
  case (Cons e es)
  from Cons.prems(4) have now: "elapsed [e] < t" and later: "elapsed es < t - elapsed [e]"
    using elapsed_Cons [of e es] by simp_all
  from loading_deliver [OF Cons.prems(1-3) now] obtain q1 where
    q1: "deliver ps e q0 = Inr q1" "shownPrefix ps q1" "isLoading q1"
      "query q1 = query q0" "loadingTimeouts q1 = [t - elapsed [e]]"
    by blast
  from Cons.IH [OF q1(2,3,5) later] obtain q where
    "run ps es q1 = Inr q" "shownPrefix ps q" "isLoading q" "query q = query q1"
      "loadingTimeouts q = [t - elapsed [e] - elapsed es]"
    by blast
  with q1 show ?case
    using elapsed_Cons [of e es] by simp
qed

text \<open>
  Claim C5. In a reachable state that is not loading and whose trimmed query is not
  empty, \<open>handleSubmit\<close> sets \<open>isLoading\<close>, starts one timer of 3000 ms and does
  nothing else. Whatever happens next (events of the user, steps of the animation, time
  passing), as long as less than 3000 ms have passed the page is still loading, the
  query is the one submitted and the timer is the only one pending; when the rest of the
  3000 ms has passed, the timer fires, \<open>isLoading\<close> is false and no timer is left.
\<close>

theorem loading_for_three_seconds:
  assumes "prompts \<noteq> []" and "p \<in> reachable prompts"
    and "\<not> isLoading p" and "trim (query p) \<noteq> []"
    and "elapsed es < 3000"
  shows "handleSubmit p = (True, p\<lparr>isLoading := True, loadingTimeouts := [3000]\<rparr>)
       \<and> (\<exists>q. run prompts es (snd (handleSubmit p)) = Inr q
             \<and> isLoading q \<and> query q = query p
             \<and> loadingTimeouts q = [3000 - elapsed es]
             \<and> elapse (3000 - elapsed es) q = q\<lparr>isLoading := False, loadingTimeouts := []\<rparr>)"
proof -
  from reachable_oneTimer [OF assms(2)] assms(3) have none: "loadingTimeouts p = []"
    by (simp add: oneTimer_def)
  with assms(4) have submitted:
    "handleSubmit p = (True, p\<lparr>isLoading := True, loadingTimeouts := [3000]\<rparr>)"
    by (simp add: handleSubmit_def)
  let ?p1 = "p\<lparr>isLoading := True, loadingTimeouts := [3000]\<rparr>"
  have "shownPrefix prompts p"
    using assms(1,2) by (rule reachable_shownPrefix)
  then have "shownPrefix prompts ?p1"
    by (simp add: shownPrefix_def)
  from loading_run [OF this _ _ assms(5), of] obtain q where
    q: "run prompts es ?p1 = Inr q" "isLoading q" "query q = query ?p1"
      "loadingTimeouts q = [3000 - elapsed es]"
    by auto
  from q(4) assms(5) have "elapse (3000 - elapsed es) q = q\<lparr>isLoading := False, loadingTimeouts := []\<rparr>"
    by (simp add: elapse_def)
  with q submitted show ?thesis
    by simp
qed

theorem loading_for_three_seconds_witness:
  "samplePrompts \<noteq> []
 \<and> initial\<lparr>query := lit ''hello''\<rparr> \<in> reachable samplePrompts
 \<and> \<not> isLoading (initial\<lparr>query := lit ''hello''\<rparr>)
 \<and> trim (query (initial\<lparr>query := lit ''hello''\<rparr>)) \<noteq> []
 \<and> elapsed [Elapse 1000, AnimationTimeout, ClickSubmit, Change (lit ''x''), Elapse 1999] < 3000
 \<and> handleSubmit (initial\<lparr>query := lit ''hello''\<rparr>)
     = (True, initial\<lparr>query := lit ''hello'', isLoading := True, loadingTimeouts := [3000]\<rparr>)
 \<and> (\<exists>q. run samplePrompts
            [Elapse 1000, AnimationTimeout, ClickSubmit, Change (lit ''x''), Elapse 1999]
            (snd (handleSubmit (initial\<lparr>query := lit ''hello''\<rparr>))) = Inr q
        \<and> isLoading q \<and> query q = lit ''hello'' \<and> loadingTimeouts q = [1]
        \<and> elapse 1 q = q\<lparr>isLoading := False, loadingTimeouts := []\<rparr>)"
proof -
  have ne: "samplePrompts \<noteq> []"
    by (simp add: samplePrompts_def)
  have "deliver samplePrompts (Change (lit ''hello'')) initial
      = Inr (initial\<lparr>query := lit ''hello''\<rparr>)"
    by (simp add: inputDisabled_def onChange_def initial_def)
  with reachable.mounted have r: "initial\<lparr>query := lit ''hello''\<rparr> \<in> reachable samplePrompts"
    by (rule reachable.event)
  have nl: "\<not> isLoading (initial\<lparr>query := lit ''hello''\<rparr>)"
    by (simp add: initial_def)
  have tr: "trim (query (initial\<lparr>query := lit ''hello''\<rparr>)) \<noteq> []"
    by (simp add: trim_def lit_def isWhiteSpace_def)
  have el: "elapsed [Elapse 1000, AnimationTimeout, ClickSubmit, Change (lit ''x''), Elapse 1999]
      < 3000"
    by simp
  have rest: "3000 - elapsed [Elapse 1000, AnimationTimeout, ClickSubmit, Change (lit ''x''),
      Elapse 1999] = 1"
    by simp
  from loading_for_three_seconds [OF ne r nl tr el] obtain q where
    h: "handleSubmit (initial\<lparr>query := lit ''hello''\<rparr>)
        = (True, initial\<lparr>query := lit ''hello'', isLoading := True,
             loadingTimeouts := [3000]\<rparr>)"
    and q: "run samplePrompts
            [Elapse 1000, AnimationTimeout, ClickSubmit, Change (lit ''x''), Elapse 1999]
            (snd (handleSubmit (initial\<lparr>query := lit ''hello''\<rparr>))) = Inr q"
      "isLoading q" "query q = query (initial\<lparr>query := lit ''hello''\<rparr>)"
      "loadingTimeouts q = [1]"
      "elapse 1 q = q\<lparr>isLoading := False, loadingTimeouts := []\<rparr>"
    unfolding rest by blast
  from q(3) have "query q = lit ''hello''"
    by simp
  with q have "\<exists>q. run samplePrompts
            [Elapse 1000, AnimationTimeout, ClickSubmit, Change (lit ''x''), Elapse 1999]
            (snd (handleSubmit (initial\<lparr>query := lit ''hello''\<rparr>))) = Inr q
        \<and> isLoading q \<and> query q = lit ''hello'' \<and> loadingTimeouts q = [1]
        \<and> elapse 1 q = q\<lparr>isLoading := False, loadingTimeouts := []\<rparr>"
    by blast
  with ne r nl tr el h show ?thesis
    by blast
qed

end
